theory Spec2Isabelle
  imports Complex_Main "HOL-Library.Sublist" "HOL-Library.Product_Lexorder"
begin

section \<open>Strings as Python sees them\<close>

text \<open>
  Python strings are modelled as Isabelle strings. The embedding covers ASCII text:
  \<open>str.upper\<close> and \<open>str.lower\<close> act on the letters A-Z and a-z, \<open>str.isspace\<close> (which is
  also what \<open>str.strip\<close> removes and what \<open>\s\<close> matches in a regular expression)
  holds for the code points 9-13 and 28-32, and \<open>\d\<close> matches the digits 0-9.
\<close>

definition isspace :: "char \<Rightarrow> bool" where
  "isspace c = (let n = (of_char c :: nat) in (9 \<le> n \<and> n \<le> 13) \<or> (28 \<le> n \<and> n \<le> 32))"

definition isdigit :: "char \<Rightarrow> bool" where
  "isdigit c = (let n = (of_char c :: nat) in 48 \<le> n \<and> n \<le> 57)"

definition upper_char :: "char \<Rightarrow> char" where
  "upper_char c = (let n = (of_char c :: nat) in if 97 \<le> n \<and> n \<le> 122 then char_of (n - 32) else c)"

definition lower_char :: "char \<Rightarrow> char" where
  "lower_char c = (let n = (of_char c :: nat) in if 65 \<le> n \<and> n \<le> 90 then char_of (n + 32) else c)"

definition upper :: "string \<Rightarrow> string" where
  "upper s = map upper_char s"

definition lower :: "string \<Rightarrow> string" where
  "lower s = map lower_char s"

definition strip :: "string \<Rightarrow> string" where
  "strip s = rev (dropWhile isspace (rev (dropWhile isspace s)))"

text \<open>\<open>s.startswith(p)\<close>.\<close>

definition startswith :: "string \<Rightarrow> string \<Rightarrow> bool" where
  "startswith s p = prefix p s"

text \<open>\<open>sub in s\<close>: \<open>sub\<close> occurs in \<open>s\<close> as a contiguous substring.\<close>

fun contains :: "string \<Rightarrow> string \<Rightarrow> bool" where
  "contains sub [] = (sub = [])"
| "contains sub (c # cs) = (prefix sub (c # cs) \<or> contains sub cs)"

section \<open>Integers and their decimal text\<close>

datatype error = ValueError

definition digit_val :: "char \<Rightarrow> int" where
  "digit_val c = int (of_char c) - 48"

text \<open>
  \<open>int(s)\<close>. The source applies it only to groups matched by \<open>\d{4}\<close>; on a string
  that is not a non-empty run of decimal digits the model raises \<open>ValueError\<close>.
\<close>

definition py_int :: "string \<Rightarrow> error + int" where
  "py_int s = (if s \<noteq> [] \<and> list_all isdigit s
               then Inr (foldl (\<lambda>acc c. 10 * acc + digit_val c) 0 s)
               else Inl ValueError)"

definition digit_char :: "nat \<Rightarrow> char" where
  "digit_char d = char_of (48 + d)"

text \<open>\<open>str(n)\<close> of a non-negative integer, and of any integer.\<close>

fun str_nat :: "nat \<Rightarrow> string" where
  "str_nat n = (if n < 10 then [digit_char n] else str_nat (n div 10) @ [digit_char (n mod 10)])"

declare str_nat.simps [simp del]

definition str_int :: "int \<Rightarrow> string" where
  "str_int i = (if i < 0 then CHR ''-'' # str_nat (nat (- i)) else str_nat (nat i))"

text \<open>\<open>list(range(a, b))\<close>.\<close>

definition py_range :: "int \<Rightarrow> int \<Rightarrow> int list" where
  "py_range a b = [a..b - 1]"

section \<open>Year-range parsing (cross_reference.py)\<close>

text \<open>
  The three regular expressions of \<open>parse_year_range\<close>, each used with \<open>re.match\<close>
  (anchored at the start of the text, free at its end). In each of them \<open>\s*\<close> is
  followed by a character that is not white space, so the greedy match of the white
  space is the only one that can succeed.
\<close>

text \<open>\<open>(\d{4})\<close>: the group and the rest of the text.\<close>

definition digits4 :: "string \<Rightarrow> (string \<times> string) option" where
  "digits4 s = (if 4 \<le> length s \<and> list_all isdigit (take 4 s)
                then Some (take 4 s, drop 4 s) else None)"

text \<open>\<open>\s*-\s*\<close>: the rest of the text after it.\<close>

definition dash :: "string \<Rightarrow> string option" where
  "dash s = (case dropWhile isspace s of
               [] \<Rightarrow> None
             | c # r \<Rightarrow> if c = CHR ''-'' then Some (dropWhile isspace r) else None)"

text \<open>\<open>re.match(r"(\d{4})\s*-\s*present", s)\<close>: group 1.\<close>

definition match_present :: "string \<Rightarrow> string option" where
  "match_present s =
     (case digits4 s of
        None \<Rightarrow> None
      | Some (g, r) \<Rightarrow>
          (case dash r of
             None \<Rightarrow> None
           | Some r' \<Rightarrow> if prefix ''present'' r' then Some g else None))"

text \<open>\<open>re.match(r"(\d{4})\s*-\s*(\d{4})", s)\<close>: groups 1 and 2.\<close>

definition match_range :: "string \<Rightarrow> (string \<times> string) option" where
  "match_range s =
     (case digits4 s of
        None \<Rightarrow> None
      | Some (g1, r) \<Rightarrow>
          (case dash r of
             None \<Rightarrow> None
           | Some r' \<Rightarrow>
               (case digits4 r' of
                  None \<Rightarrow> None
                | Some (g2, _) \<Rightarrow> Some (g1, g2))))"

text \<open>\<open>re.match(r"(\d{4})", s)\<close>: group 1.\<close>

definition match_single :: "string \<Rightarrow> string option" where
  "match_single s = map_option fst (digits4 s)"

text \<open>
  \<open>parse_year_range(years_str, current_year)\<close>. The caller passes \<open>current_year\<close>;
  the default (the clock's year) is the caller's business here.
\<close>

definition parse_year_range :: "string \<Rightarrow> int \<Rightarrow> error + int list" where
  "parse_year_range years_str current_year =
     (let s = lower (strip years_str) in
      if contains ''present'' s then
        (case match_present s of
           Some g \<Rightarrow>
             (case py_int g of
                Inl e \<Rightarrow> Inl e
              | Inr start_year \<Rightarrow> Inr (py_range start_year current_year))
         | None \<Rightarrow> Inr [])
      else
        (case match_range s of
           Some (g1, g2) \<Rightarrow>
             (case py_int g1 of
                Inl e \<Rightarrow> Inl e
              | Inr start_year \<Rightarrow>
                  (case py_int g2 of
                     Inl e \<Rightarrow> Inl e
                   | Inr end_year \<Rightarrow> Inr (py_range start_year (end_year + 1))))
         | None \<Rightarrow>
             (case match_single s of
                Some g \<Rightarrow>
                  (case py_int g of
                     Inl e \<Rightarrow> Inl e
                   | Inr y \<Rightarrow> Inr [y])
              | None \<Rightarrow> Inr [])))"

text \<open>\<open>year_to_academic_year(year)\<close>: the f-string \<open>f"{year}-{year + 1}"\<close>.\<close>

definition year_to_academic_year :: "int \<Rightarrow> string" where
  "year_to_academic_year year = str_int year @ ''-'' @ str_int (year + 1)"

section \<open>String similarity (difflib.SequenceMatcher, as fuzzy_match calls it)\<close>

text \<open>
  \<open>fuzzy_match\<close> scores a candidate with \<open>SequenceMatcher(None, a, b).ratio()\<close> of
  Python's standard library. The matcher is built with \<open>isjunk = None\<close> and
  \<open>autojunk = True\<close>: no element is junk, and in a second sequence of 200 elements or
  more an element that occurs more than \<open>n // 100 + 1\<close> times is popular and is left
  out of the index \<open>b2j\<close>. Indices are natural numbers; the length \<open>k\<close> of a match
  that ends at \<open>(i, j)\<close> never exceeds \<open>i + 1\<close> or \<open>j + 1\<close> (\<open>inner_loop_inv\<close> below),
  so that \<open>i - k + 1\<close> and \<open>j - k + 1\<close> are computed exactly.
\<close>

definition isbjunk :: "char \<Rightarrow> bool" where
  "isbjunk c = False"

definition popular :: "string \<Rightarrow> char \<Rightarrow> bool" where
  "popular b c = (200 \<le> length b \<and> length b div 100 + 1 < count_list b c)"

text \<open>\<open>b2j.get(c, [])\<close> after \<open>__chain_b\<close>: the positions of \<open>c\<close> in \<open>b\<close>, ascending.\<close>

definition b2j :: "string \<Rightarrow> char \<Rightarrow> nat list" where
  "b2j b c = (if popular b c then [] else filter (\<lambda>j. b ! j = c) [0..<length b])"

type_synonym match = "nat \<times> nat \<times> nat"

text \<open>\<open>j2len.get(j - 1, 0)\<close>; for \<open>j = 0\<close> the key is \<open>-1\<close>, which is never stored.\<close>

definition j2lenget :: "(nat \<rightharpoonup> nat) \<Rightarrow> nat \<Rightarrow> nat" where
  "j2lenget j2len j = (if j = 0 then 0 else case j2len (j - 1) of None \<Rightarrow> 0 | Some v \<Rightarrow> v)"

text \<open>
  The inner loop of \<open>find_longest_match\<close> over the positions \<open>j\<close> of \<open>a[i]\<close> in \<open>b\<close>:
  \<open>continue\<close> below \<open>blo\<close>, \<open>break\<close> from \<open>bhi\<close> on. The state is \<open>newj2len\<close> and
  the best match so far.
\<close>

fun inner_loop :: "nat \<Rightarrow> nat \<Rightarrow> nat \<Rightarrow> (nat \<rightharpoonup> nat) \<Rightarrow> nat list
                    \<Rightarrow> (nat \<rightharpoonup> nat) \<times> match \<Rightarrow> (nat \<rightharpoonup> nat) \<times> match" where
  "inner_loop i blo bhi j2len [] st = st"
| "inner_loop i blo bhi j2len (j # js) (newj2len, (besti, bestj, bestsize)) =
     (if j < blo then inner_loop i blo bhi j2len js (newj2len, (besti, bestj, bestsize))
      else if bhi \<le> j then (newj2len, (besti, bestj, bestsize))
      else
        (let k = j2lenget j2len j + 1 in
         inner_loop i blo bhi j2len js
           (newj2len(j \<mapsto> k),
            if bestsize < k then (i + 1 - k, j + 1 - k, k) else (besti, bestj, bestsize))))"

text \<open>The outer loop \<open>for i in range(alo, ahi)\<close>; the state is \<open>j2len\<close> and the best match.\<close>

fun outer_loop :: "string \<Rightarrow> string \<Rightarrow> nat \<Rightarrow> nat \<Rightarrow> nat list
                    \<Rightarrow> (nat \<rightharpoonup> nat) \<times> match \<Rightarrow> (nat \<rightharpoonup> nat) \<times> match" where
  "outer_loop a b blo bhi [] st = st"
| "outer_loop a b blo bhi (i # is) (j2len, best) =
     outer_loop a b blo bhi is (inner_loop i blo bhi j2len (b2j b (a ! i)) (Map.empty, best))"

text \<open>
  The four \<open>while\<close> loops that extend the match at both ends, first over elements
  that are not junk, then over junk; \<open>P\<close> is the test on \<open>b\<close>'s element.
\<close>

function extend_back :: "string \<Rightarrow> string \<Rightarrow> nat \<Rightarrow> nat \<Rightarrow> (char \<Rightarrow> bool) \<Rightarrow> match \<Rightarrow> match" where
  "extend_back a b alo blo P (besti, bestj, bestsize) =
     (if alo < besti \<and> blo < bestj \<and> P (b ! (bestj - 1)) \<and> a ! (besti - 1) = b ! (bestj - 1)
      then extend_back a b alo blo P (besti - 1, bestj - 1, bestsize + 1)
      else (besti, bestj, bestsize))"
  by pat_completeness auto
termination
  by (relation "measure (\<lambda>(a, b, alo, blo, P, besti, bestj, bestsize). besti)") auto

function extend_fwd :: "string \<Rightarrow> string \<Rightarrow> nat \<Rightarrow> nat \<Rightarrow> (char \<Rightarrow> bool) \<Rightarrow> match \<Rightarrow> match" where
  "extend_fwd a b ahi bhi P (besti, bestj, bestsize) =
     (if besti + bestsize < ahi \<and> bestj + bestsize < bhi \<and> P (b ! (bestj + bestsize))
         \<and> a ! (besti + bestsize) = b ! (bestj + bestsize)
      then extend_fwd a b ahi bhi P (besti, bestj, bestsize + 1)
      else (besti, bestj, bestsize))"
  by pat_completeness auto
termination
  by (relation "measure (\<lambda>(a, b, ahi, bhi, P, besti, bestj, bestsize). ahi - (besti + bestsize))") auto

declare extend_back.simps [simp del] extend_fwd.simps [simp del]

definition find_longest_match :: "string \<Rightarrow> string \<Rightarrow> nat \<Rightarrow> nat \<Rightarrow> nat \<Rightarrow> nat \<Rightarrow> match" where
  "find_longest_match a b alo ahi blo bhi =
     (let best0 = snd (outer_loop a b blo bhi [alo..<ahi] (Map.empty, (alo, blo, 0)));
          best1 = extend_back a b alo blo (\<lambda>c. \<not> isbjunk c) best0;
          best2 = extend_fwd a b ahi bhi (\<lambda>c. \<not> isbjunk c) best1;
          best3 = extend_back a b alo blo isbjunk best2
      in extend_fwd a b ahi bhi isbjunk best3)"

text \<open>
  The match that \<open>find_longest_match\<close> returns lies inside the window it was given;
  the loop of \<open>get_matching_blocks\<close> terminates because of it.
\<close>

definition match_in :: "nat \<Rightarrow> nat \<Rightarrow> nat \<Rightarrow> nat \<Rightarrow> match \<Rightarrow> bool" where
  "match_in alo ahi blo bhi m =
     (case m of (i, j, k) \<Rightarrow> alo \<le> i \<and> blo \<le> j \<and> ((k = 0 \<and> i = alo \<and> j = blo) \<or> (i + k \<le> ahi \<and> j + k \<le> bhi)))"

definition j2len_ok :: "nat \<Rightarrow> nat \<Rightarrow> nat \<Rightarrow> (nat \<rightharpoonup> nat) \<Rightarrow> bool" where
  "j2len_ok alo blo i j2len = (\<forall>j v. j2len j = Some v \<longrightarrow> v + alo \<le> i \<and> v + blo \<le> j + 1)"

lemma j2lenget_bound:
  assumes "j2len_ok alo blo i j2len" "blo \<le> j"
  shows "j2lenget j2len j + alo \<le> max i alo \<and> j2lenget j2len j + blo \<le> j"
  using assms by (auto simp: j2lenget_def j2len_ok_def split: option.splits) fastforce+

lemma inner_loop_inv:
  assumes "j2len_ok alo blo i j2len" "alo \<le> i" "i < ahi"
    and "j2len_ok alo blo (i + 1) newj2len" "match_in alo ahi blo bhi best"
    and "inner_loop i blo bhi j2len js (newj2len, best) = (newj2len', best')"
  shows "j2len_ok alo blo (i + 1) newj2len' \<and> match_in alo ahi blo bhi best'"
  using assms(4-)
proof (induction js arbitrary: newj2len best)
  case Nil
  then show ?case by simp
next
  case (Cons j js)
  obtain besti bestj bestsize where best: "best = (besti, bestj, bestsize)"
    by (cases best) auto
  show ?case
  proof (cases "j < blo")
    case True
    with Cons best show ?thesis by simp
  next
    case lo: False
    show ?thesis
    proof (cases "bhi \<le> j")
      case True
      with Cons best lo show ?thesis by simp
    next
      case False
      define k where "k = j2lenget j2len j + 1"
      have kb: "k + alo \<le> i + 1" "k + blo \<le> j + 1"
        using j2lenget_bound [OF assms(1), of j] lo assms(2) by (auto simp: k_def max_def)
      have 1: "j2len_ok alo blo (i + 1) (newj2len(j \<mapsto> k))"
        using Cons.prems(1) kb by (auto simp: j2len_ok_def)
      have 2: "match_in alo ahi blo bhi (if bestsize < k then (i + 1 - k, j + 1 - k, k) else (besti, bestj, bestsize))"
        using Cons.prems(2) kb False assms(3) by (auto simp: match_in_def best)
      have "inner_loop i blo bhi j2len js (newj2len(j \<mapsto> k),
                 if bestsize < k then (i + 1 - k, j + 1 - k, k) else (besti, bestj, bestsize)) = (newj2len', best')"
        using Cons.prems(3) lo False by (auto simp: best k_def Let_def split: if_splits)
      from Cons.IH [OF 1 2 this] show ?thesis .
    qed
  qed
qed

lemma j2len_ok_mono: "j2len_ok alo blo i m \<Longrightarrow> i \<le> i' \<Longrightarrow> j2len_ok alo blo i' m"
  by (fastforce simp: j2len_ok_def)

lemma outer_loop_inv:
  assumes "j2len_ok alo blo i0 j2len" "alo \<le> i0" "match_in alo ahi blo bhi best"
  shows "match_in alo ahi blo bhi (snd (outer_loop a b blo bhi [i0..<ahi] (j2len, best)))"
  using assms
proof (induction "ahi - i0" arbitrary: i0 j2len best)
  case 0
  then show ?case by simp
next
  case (Suc n)
  then have lt: "i0 < ahi" by simp
  obtain m' best' where r: "inner_loop i0 blo bhi j2len (b2j b (a ! i0)) (Map.empty, best) = (m', best')"
    by (cases "inner_loop i0 blo bhi j2len (b2j b (a ! i0)) (Map.empty, best)") auto
  have e: "j2len_ok alo blo (i0 + 1) Map.empty" by (simp add: j2len_ok_def)
  from inner_loop_inv [OF Suc.prems(1) Suc.prems(2) lt e Suc.prems(3) r]
  have i: "j2len_ok alo blo (Suc i0) m'" "match_in alo ahi blo bhi best'" by simp_all
  have "n = ahi - Suc i0" using Suc.hyps(2) by simp
  from Suc.hyps(1) [OF this i(1) _ i(2)] Suc.prems(2)
  have "match_in alo ahi blo bhi (snd (outer_loop a b blo bhi [Suc i0..<ahi] (m', best')))" by simp
  then show ?case using lt r by (simp add: upt_rec [of i0 ahi])
qed

lemma extend_back_inv:
  "match_in alo ahi blo bhi m \<Longrightarrow> match_in alo ahi blo bhi (extend_back a b alo blo P m)"
proof (induction a b alo blo P m rule: extend_back.induct)
  case (1 a b alo blo P besti bestj bestsize)
  show ?case
  proof (cases "alo < besti \<and> blo < bestj \<and> P (b ! (bestj - 1)) \<and> a ! (besti - 1) = b ! (bestj - 1)")
    case True
    have "match_in alo ahi blo bhi (besti - 1, bestj - 1, bestsize + 1)"
      using "1.prems" True by (auto simp: match_in_def)
    from "1.IH" [OF True this] True show ?thesis
      by (subst extend_back.simps) simp
  next
    case False
    then show ?thesis using "1.prems" by (subst extend_back.simps) auto
  qed
qed

lemma extend_fwd_inv:
  "match_in alo ahi blo bhi m \<Longrightarrow> match_in alo ahi blo bhi (extend_fwd a b ahi bhi P m)"
proof (induction a b ahi bhi P m rule: extend_fwd.induct)
  case (1 a b ahi bhi P besti bestj bestsize)
  show ?case
  proof (cases "besti + bestsize < ahi \<and> bestj + bestsize < bhi \<and> P (b ! (bestj + bestsize))
         \<and> a ! (besti + bestsize) = b ! (bestj + bestsize)")
    case True
    have "match_in alo ahi blo bhi (besti, bestj, bestsize + 1)"
      using "1.prems" True by (auto simp: match_in_def)
    from "1.IH" [OF True this] True show ?thesis
      by (subst extend_fwd.simps) simp
  next
    case False
    then show ?thesis using "1.prems" by (subst extend_fwd.simps) auto
  qed
qed

lemma find_longest_match_in:
  "match_in alo ahi blo bhi (find_longest_match a b alo ahi blo bhi)"
proof -
  have 0: "match_in alo ahi blo bhi (alo, blo, 0)" by (simp add: match_in_def)
  have e: "j2len_ok alo blo alo Map.empty" by (simp add: j2len_ok_def)
  show ?thesis
    unfolding find_longest_match_def Let_def
    by (intro extend_fwd_inv extend_back_inv outer_loop_inv 0 e order_refl)
qed

text \<open>
  The loop of \<open>get_matching_blocks\<close>. The queue is a stack (\<open>pop()\<close> takes the element
  appended last), kept here with its top first.
\<close>

function blocks_loop :: "string \<Rightarrow> string \<Rightarrow> (nat \<times> nat \<times> nat \<times> nat) list \<Rightarrow> match list \<Rightarrow> match list" where
  "blocks_loop a b [] matching_blocks = matching_blocks"
| "blocks_loop a b ((alo, ahi, blo, bhi) # queue) matching_blocks =
     (let x = find_longest_match a b alo ahi blo bhi;
          i = fst x; j = fst (snd x); k = snd (snd x)
      in if k \<noteq> 0 then
           blocks_loop a b
             ((if i + k < ahi \<and> j + k < bhi then [(i + k, ahi, j + k, bhi)] else []) @
              (if alo < i \<and> blo < j then [(alo, i, blo, j)] else []) @ queue)
             (matching_blocks @ [x])
         else blocks_loop a b queue matching_blocks)"
  by pat_completeness auto
termination
proof (relation "measure (\<lambda>(a, b, queue, mbs). sum_list (map (\<lambda>(alo, ahi, blo, bhi). 2 * (ahi - alo) + 1) queue))",
    goal_cases)
  case 1
  show ?case by simp
next
  case (2 a b alo ahi blo bhi queue mbs x i j k)
  have "match_in alo ahi blo bhi (i, j, k)"
    using find_longest_match_in [of alo ahi blo bhi a b] 2 by simp
  with 2(5) show ?case by (auto simp: match_in_def)
next
  case 3
  then show ?case by simp
qed

declare blocks_loop.simps [simp del]

text \<open>
  The second loop of \<open>get_matching_blocks\<close>, which merges adjacent blocks; the first
  argument is the block \<open>(i1, j1, k1)\<close> being grown.
\<close>

fun collapse :: "match \<Rightarrow> match list \<Rightarrow> match list" where
  "collapse (i1, j1, k1) [] = (if k1 \<noteq> 0 then [(i1, j1, k1)] else [])"
| "collapse (i1, j1, k1) ((i2, j2, k2) # rest) =
     (if i1 + k1 = i2 \<and> j1 + k1 = j2 then collapse (i1, j1, k1 + k2) rest
      else (if k1 \<noteq> 0 then [(i1, j1, k1)] else []) @ collapse (i2, j2, k2) rest)"

definition get_matching_blocks :: "string \<Rightarrow> string \<Rightarrow> match list" where
  "get_matching_blocks a b =
     collapse (0, 0, 0) (sort (blocks_loop a b [(0, length a, 0, length b)] []))
       @ [(length a, length b, 0)]"

text \<open>
  \<open>_calculate_ratio\<close> and \<open>ratio\<close>. Python returns the float nearest to the quotient;
  the model keeps the quotient itself, a rational number.
\<close>

definition calculate_ratio :: "nat \<Rightarrow> nat \<Rightarrow> rat" where
  "calculate_ratio matches len = (if len \<noteq> 0 then 2 * of_nat matches / of_nat len else 1)"

definition ratio :: "string \<Rightarrow> string \<Rightarrow> rat" where
  "ratio a b =
     calculate_ratio (sum_list (map (\<lambda>triple. snd (snd triple)) (get_matching_blocks a b)))
       (length a + length b)"

section \<open>School names (normalize.py)\<close>

text \<open>\<open>re.sub(r'\s+', ' ', name)\<close>.\<close>

function collapse_ws :: "string \<Rightarrow> string" where
  "collapse_ws [] = []"
| "collapse_ws (c # cs) =
     (if isspace c then CHR '' '' # collapse_ws (dropWhile isspace cs) else c # collapse_ws cs)"
  by pat_completeness auto
termination
  by (relation "measure length") (auto simp: length_dropWhile_le less_Suc_eq_le)

definition clean_school_name :: "string \<Rightarrow> string" where
  "clean_school_name name = collapse_ws (strip (upper name))"

text \<open>
  The alias table is a JSON object: an association list in the order of the file.
  Later assignments to the same key of \<open>reverse_map\<close> overwrite earlier ones.
\<close>

definition add_aliases :: "string \<Rightarrow> string list \<Rightarrow> (string \<rightharpoonup> string) \<Rightarrow> (string \<rightharpoonup> string)" where
  "add_aliases canonical_upper alias_list reverse_map =
     foldl (\<lambda>m alias. m(upper alias \<mapsto> canonical_upper)) reverse_map alias_list"

definition build_reverse_alias_map :: "(string \<times> string list) list \<Rightarrow> (string \<rightharpoonup> string)" where
  "build_reverse_alias_map aliases =
     foldl (\<lambda>reverse_map (canonical, alias_list).
              if startswith canonical ''_'' then reverse_map
              else add_aliases (upper canonical) alias_list reverse_map)
       Map.empty aliases"

text \<open>
  \<open>fuzzy_match\<close>. The candidates are a Python set; the list is its iteration order.
  The final test \<open>if best_match\<close> is false for \<open>None\<close> and for the empty string.
\<close>

fun fuzzy_loop :: "string \<Rightarrow> rat \<Rightarrow> string list \<Rightarrow> string option \<times> rat \<Rightarrow> string option \<times> rat" where
  "fuzzy_loop name_upper threshold [] st = st"
| "fuzzy_loop name_upper threshold (candidate # cs) (best_match, best_score) =
     (let score = ratio name_upper (upper candidate) in
      if best_score < score \<and> threshold \<le> score
      then fuzzy_loop name_upper threshold cs (Some candidate, score)
      else fuzzy_loop name_upper threshold cs (best_match, best_score))"

definition fuzzy_match :: "string \<Rightarrow> string list \<Rightarrow> rat \<Rightarrow> (string \<times> rat) option" where
  "fuzzy_match name candidates threshold =
     (case fuzzy_loop (upper name) threshold candidates (None, 0) of
        (None, _) \<Rightarrow> None
      | (Some best_match, best_score) \<Rightarrow>
          if best_match \<noteq> [] then Some (best_match, best_score) else None)"

record fuzzy_entry =
  original :: string
  matched_to :: string
  score :: rat

text \<open>The state of a \<open>SchoolNormalizer\<close> after \<open>__init__\<close>.\<close>

record normalizer =
  nmdp_db :: "(string \<times> string list) list"
  aliases :: "(string \<times> string list) list"
  nmdp_schools :: "string list"
  reverse_aliases :: "string \<rightharpoonup> string"
  fuzzy_match_log :: "fuzzy_entry list"

text \<open>\<open>SchoolNormalizer.normalize\<close>: the result and the normalizer after the call.\<close>

definition normalize :: "normalizer \<Rightarrow> string \<Rightarrow> bool \<Rightarrow> rat \<Rightarrow> (string \<times> string) \<times> normalizer" where
  "normalize self name use_fuzzy fuzzy_threshold =
     (let cleaned = clean_school_name name in
      if cleaned \<in> set (nmdp_schools self) then ((cleaned, ''exact''), self)
      else
        (case reverse_aliases self cleaned of
           Some canonical \<Rightarrow> ((canonical, ''alias''), self)
         | None \<Rightarrow>
             (case (if use_fuzzy then fuzzy_match cleaned (nmdp_schools self) fuzzy_threshold
                    else None) of
                Some (match, score') \<Rightarrow>
                  ((match, ''fuzzy''),
                   self\<lparr>fuzzy_match_log := fuzzy_match_log self @
                          [\<lparr>original = name, matched_to = match, score = score'\<rparr>]\<rparr>)
              | None \<Rightarrow> ((cleaned, ''none''), self))))"

definition nfl_keywords :: "string list" where
  "nfl_keywords =
     [''49ERS'', ''BEARS'', ''BENGALS'', ''BILLS'', ''BRONCOS'', ''BROWNS'',
      ''BUCCANEERS'', ''CARDINALS'', ''CHARGERS'', ''CHIEFS'', ''COLTS'',
      ''COMMANDERS'', ''COWBOYS'', ''DOLPHINS'', ''EAGLES'', ''FALCONS'',
      ''GIANTS'', ''JAGUARS'', ''JETS'', ''LIONS'', ''PACKERS'', ''PANTHERS'',
      ''PATRIOTS'', ''RAIDERS'', ''RAMS'', ''RAVENS'', ''SAINTS'', ''SEAHAWKS'',
      ''STEELERS'', ''TEXANS'', ''TITANS'', ''VIKINGS'',
      ''NFL'', ''NATIONAL FOOTBALL LEAGUE'']"

definition nfl_cities :: "string list" where
  "nfl_cities =
     [''ARIZONA'', ''ATLANTA'', ''BALTIMORE'', ''BUFFALO'', ''CAROLINA'',
      ''CHICAGO'', ''CINCINNATI'', ''CLEVELAND'', ''DALLAS'', ''DENVER'',
      ''DETROIT'', ''GREEN BAY'', ''HOUSTON'', ''INDIANAPOLIS'', ''JACKSONVILLE'',
      ''KANSAS CITY'', ''LAS VEGAS'', ''LOS ANGELES'', ''MIAMI'', ''MINNESOTA'',
      ''NEW ENGLAND'', ''NEW ORLEANS'', ''NEW YORK'', ''PHILADELPHIA'',
      ''PITTSBURGH'', ''SAN FRANCISCO'', ''SEATTLE'', ''TAMPA BAY'',
      ''TENNESSEE'', ''WASHINGTON'']"

text \<open>
  \<open>SchoolNormalizer.is_nfl_team\<close>: the first loop returns at a keyword found in a name
  without "UNIVERSITY" and "COLLEGE"; the second loop returns at a city the name
  starts with when the rest of the name, stripped, holds a keyword.
\<close>

definition is_nfl_team :: "string \<Rightarrow> bool" where
  "is_nfl_team name =
     (let name_upper = upper name in
      if list_ex (\<lambda>keyword. contains keyword name_upper
                    \<and> \<not> contains ''UNIVERSITY'' name_upper \<and> \<not> contains ''COLLEGE'' name_upper)
           nfl_keywords
      then True
      else if list_ex (\<lambda>city. startswith name_upper city
                    \<and> list_ex (\<lambda>keyword. contains keyword (strip (drop (length city) name_upper)))
                         nfl_keywords)
           nfl_cities
      then True
      else False)"

section \<open>Overlaps (cross_reference.py)\<close>

text \<open>A career stint; \<open>None\<close> is a key the dictionary does not have.\<close>

record stint =
  school :: "string option"
  years :: "string option"
  position :: "string option"
  source_url :: "string option"

record overlap =
  ov_school :: string
  school_original :: string
  academic_year :: string
  coach_position :: string
  match_type :: string

text \<open>
  \<open>find_overlaps_for_coach\<close>: the loop over the stints, with the normalizer and the
  list of overlaps as its state. \<open>normalize\<close> is called with its defaults
  (\<open>use_fuzzy = False\<close>, \<open>fuzzy_threshold = 0.85\<close>).
\<close>

fun find_overlaps_loop :: "(string \<rightharpoonup> string list) \<Rightarrow> int \<Rightarrow> int \<Rightarrow> stint list
     \<Rightarrow> normalizer \<Rightarrow> overlap list \<Rightarrow> error + (overlap list \<times> normalizer)" where
  "find_overlaps_loop db year_range_start year_range_end [] self overlaps = Inr (overlaps, self)"
| "find_overlaps_loop db year_range_start year_range_end (st # rest) self overlaps =
     (let school' = (case school st of None \<Rightarrow> [] | Some s \<Rightarrow> s);
          years_str = (case years st of None \<Rightarrow> [] | Some s \<Rightarrow> s);
          position' = (case position st of None \<Rightarrow> ''Unknown'' | Some s \<Rightarrow> s)
      in
      if school' = [] \<or> years_str = [] then
        find_overlaps_loop db year_range_start year_range_end rest self overlaps
      else if is_nfl_team school' then
        find_overlaps_loop db year_range_start year_range_end rest self overlaps
      else
        (case normalize self school' False (85 / 100) of
           ((normalized_school, mtype), self') \<Rightarrow>
             (case db normalized_school of
                None \<Rightarrow> find_overlaps_loop db year_range_start year_range_end rest self' overlaps
              | Some nmdp_years \<Rightarrow>
                  (case parse_year_range years_str year_range_end of
                     Inl e \<Rightarrow> Inl e
                   | Inr parsed \<Rightarrow>
                       (let coach_years =
                              filter (\<lambda>y. year_range_start \<le> y \<and> y < year_range_end) parsed
                        in find_overlaps_loop db year_range_start year_range_end rest self'
                             (overlaps @
                              map (\<lambda>year. \<lparr>ov_school = normalized_school, school_original = school',
                                           academic_year = year_to_academic_year year,
                                           coach_position = position', match_type = mtype\<rparr>)
                                (filter (\<lambda>year. year_to_academic_year year \<in> set nmdp_years)
                                   coach_years)))))))"

definition find_overlaps_for_coach :: "stint list \<Rightarrow> (string \<rightharpoonup> string list) \<Rightarrow> normalizer
     \<Rightarrow> int \<Rightarrow> int \<Rightarrow> error + (overlap list \<times> normalizer)" where
  "find_overlaps_for_coach career_history db self year_range_start year_range_end =
     find_overlaps_loop db year_range_start year_range_end career_history self []"

section \<open>Notions used in the proofs\<close>

text \<open>
  One step of the loop of \<open>build_reverse_alias_map\<close>.
\<close>

definition alias_step :: "(string \<rightharpoonup> string) \<Rightarrow> string \<times> string list \<Rightarrow> (string \<rightharpoonup> string)" where
  "alias_step reverse_map e =
     (case e of (canonical, alias_list) \<Rightarrow>
        if startswith canonical ''_'' then reverse_map
        else add_aliases (upper canonical) alias_list reverse_map)"

text \<open>
  What \<open>find_overlaps_for_coach\<close> keeps of a stint that it does not skip (steps 1 to
  4: school and years present, not an NFL team, canonical name in the program
  database), and the records it emits for a list of seasons of such a stint.
\<close>

record target =
  t_school :: string
  t_years :: string
  t_position :: string
  t_canonical :: string
  t_match_type :: string
  t_program_years :: "string list"

definition stint_target :: "(string \<rightharpoonup> string list) \<Rightarrow> normalizer \<Rightarrow> stint \<Rightarrow> target option" where
  "stint_target db self st =
     (let school' = (case school st of None \<Rightarrow> [] | Some s \<Rightarrow> s);
          years_str = (case years st of None \<Rightarrow> [] | Some s \<Rightarrow> s);
          position' = (case position st of None \<Rightarrow> ''Unknown'' | Some s \<Rightarrow> s)
      in
      if school' = [] \<or> years_str = [] then None
      else if is_nfl_team school' then None
      else
        (case fst (normalize self school' False (85 / 100)) of
           (normalized_school, mtype) \<Rightarrow>
             (case db normalized_school of
                None \<Rightarrow> None
              | Some nmdp_years \<Rightarrow>
                  Some \<lparr>t_school = school', t_years = years_str, t_position = position',
                        t_canonical = normalized_school, t_match_type = mtype,
                        t_program_years = nmdp_years\<rparr>)))"

definition records_for :: "target \<Rightarrow> int list \<Rightarrow> overlap list" where
  "records_for t seasons =
     map (\<lambda>year. \<lparr>ov_school = t_canonical t, school_original = t_school t,
                  academic_year = year_to_academic_year year,
                  coach_position = t_position t, match_type = t_match_type t\<rparr>)
       (filter (\<lambda>year. year_to_academic_year year \<in> set (t_program_years t)) seasons)"

text \<open>
  The total size of a list of matching blocks, and the most that a window of the
  queue of \<open>get_matching_blocks\<close> can contribute to it.
\<close>

definition matched :: "match list \<Rightarrow> nat" where
  "matched blocks = sum_list (map (\<lambda>triple. snd (snd triple)) blocks)"

definition cap :: "nat \<times> nat \<times> nat \<times> nat \<Rightarrow> nat" where
  "cap w = (case w of (alo, ahi, blo, bhi) \<Rightarrow> min (ahi - alo) (bhi - blo))"

text \<open>
  Identical sequences. \<open>diag a i\<close> is the length of the run of elements that are not
  popular and ends at position \<open>i\<close>: the value that the row \<open>i\<close> of \<open>j2len\<close> holds on
  the diagonal when \<open>a\<close> is matched against itself.
\<close>

fun diag :: "string \<Rightarrow> nat \<Rightarrow> nat" where
  "diag a 0 = (if popular a (a ! 0) then 0 else 1)"
| "diag a (Suc i) = (if popular a (a ! Suc i) then 0 else diag a i + 1)"

text \<open>
  \<open>prev a i\<close> is the diagonal value of the row before \<open>i\<close>. \<open>row_ok\<close> is what holds
  of \<open>j2len\<close> when row \<open>i\<close> begins, \<open>best_ok\<close> what holds of the best match then (it
  lies on the diagonal and is at least as long as every diagonal value seen), and
  \<open>inner_ok\<close> what holds inside row \<open>i\<close> with the positions \<open>js\<close> still to visit.
\<close>

definition prev :: "string \<Rightarrow> nat \<Rightarrow> nat" where
  "prev a i = (case i of 0 \<Rightarrow> 0 | Suc i' \<Rightarrow> diag a i')"

definition row_ok :: "string \<Rightarrow> nat \<Rightarrow> (nat \<rightharpoonup> nat) \<Rightarrow> bool" where
  "row_ok a i m = ((\<forall>j v. m j = Some v \<longrightarrow> v \<le> prev a i \<and> v \<le> diag a j) \<and> j2lenget m i = prev a i)"

definition best_ok :: "string \<Rightarrow> nat \<Rightarrow> match \<Rightarrow> bool" where
  "best_ok a i best = (case best of (bi, bj, bs) \<Rightarrow> bi = bj \<and> (\<forall>i' < i. diag a i' \<le> bs))"

definition inner_ok :: "string \<Rightarrow> nat \<Rightarrow> nat list \<Rightarrow> (nat \<rightharpoonup> nat) \<times> match \<Rightarrow> bool" where
  "inner_ok a i js st =
     (case st of (newm, best) \<Rightarrow>
        (\<forall>j v. newm j = Some v \<longrightarrow> v \<le> diag a i \<and> v \<le> diag a j)
        \<and> best_ok a i best
        \<and> (i \<in> set js \<or> ((\<forall>j \<in> set js. i < j) \<and> newm i = Some (diag a i)
                          \<and> diag a i \<le> snd (snd best))))"

section \<open>Properties\<close>

subsection \<open>Facts about characters and decimal text\<close>

lemma isdigit_facts:
  assumes "isdigit c"
  shows "\<not> isspace c" "lower_char c = c" "c \<noteq> CHR ''p''" "CHR ''p'' \<noteq> c" "c \<noteq> CHR ''-''"
  using assms by (auto simp: isdigit_def isspace_def lower_char_def Let_def)

lemma isspace_facts:
  assumes "isspace c"
  shows "lower_char c = c" "c \<noteq> CHR ''-''"
  using assms by (auto simp: isspace_def lower_char_def Let_def)

lemma digit_char_props:
  assumes "d < 10"
  shows "isdigit (digit_char d)" "digit_val (digit_char d) = int d"
proof -
  have oc: "(of_char (digit_char d) :: nat) = 48 + d"
    using assms by (simp add: digit_char_def)
  show "isdigit (digit_char d)" using assms by (simp add: isdigit_def oc)
  show "digit_val (digit_char d) = int d" by (simp add: digit_val_def oc)
qed

lemma str_nat_four:
  assumes "1000 \<le> n" "n \<le> 9999"
  shows "str_nat n = [digit_char (n div 1000), digit_char (n div 100 mod 10),
                      digit_char (n div 10 mod 10), digit_char (n mod 10)]"
proof -
  have a: "\<not> n < 10" "\<not> n div 10 < 10" "\<not> n div 100 < 10" "n div 1000 < 10"
    using assms by linarith+
  have e: "n div 10 div 10 = n div 100" "n div 100 div 10 = n div 1000"
    by (simp_all add: div_mult2_eq [symmetric])
  have "str_nat (n div 1000) = [digit_char (n div 1000)]"
    using a by (simp add: str_nat.simps [of "n div 1000"])
  then have "str_nat (n div 100) = [digit_char (n div 1000), digit_char (n div 100 mod 10)]"
    using a e by (simp add: str_nat.simps [of "n div 100"])
  then have "str_nat (n div 10) = [digit_char (n div 1000), digit_char (n div 100 mod 10),
                      digit_char (n div 10 mod 10)]"
    using a e by (simp add: str_nat.simps [of "n div 10"])
  then show ?thesis
    using a by (simp add: str_nat.simps [of n])
qed

lemma decimal_four:
  fixes n :: nat
  shows "n = 10 * (10 * (10 * (n div 1000) + n div 100 mod 10) + n div 10 mod 10) + n mod 10"
proof -
  have e: "n div 10 div 10 = n div 100" "n div 100 div 10 = n div 1000"
    by (simp_all add: div_mult2_eq [symmetric])
  have 1: "n = 10 * (n div 10) + n mod 10" by simp
  have 2: "n div 10 = 10 * (n div 100) + n div 10 mod 10"
    using div_mult_mod_eq [of "n div 10" 10] e by simp
  have 3: "n div 100 = 10 * (n div 1000) + n div 100 mod 10"
    using div_mult_mod_eq [of "n div 100" 10] e by simp
  show ?thesis using 1 2 3 by simp
qed

text \<open>A four-digit year is written with four digits, and \<open>int\<close> reads it back.\<close>

lemma str_int_four:
  assumes "1000 \<le> y" "y \<le> 9999"
  obtains c1 c2 c3 c4 where "str_int y = [c1, c2, c3, c4]"
    and "isdigit c1" "isdigit c2" "isdigit c3" "isdigit c4"
    and "py_int [c1, c2, c3, c4] = Inr y"
proof -
  define n where "n = nat y"
  have n: "1000 \<le> n" "n \<le> 9999" "y = int n" using assms by (auto simp: n_def)
  have lt: "n div 1000 < 10" "n div 100 mod 10 < 10" "n div 10 mod 10 < 10" "n mod 10 < 10"
    using n by linarith+
  have s: "str_int y = [digit_char (n div 1000), digit_char (n div 100 mod 10),
                      digit_char (n div 10 mod 10), digit_char (n mod 10)]"
    using n str_nat_four [of n] by (simp add: str_int_def)
  have "int n = int (10 * (10 * (10 * (n div 1000) + n div 100 mod 10) + n div 10 mod 10) + n mod 10)"
    using decimal_four [of n] by simp
  then have "py_int [digit_char (n div 1000), digit_char (n div 100 mod 10),
                      digit_char (n div 10 mod 10), digit_char (n mod 10)] = Inr y"
    using lt n by (simp add: py_int_def digit_char_props)
  with s lt that show thesis by (simp add: digit_char_props)
qed

lemma strip_id:
  assumes "s \<noteq> []" "\<not> isspace (hd s)" "\<not> isspace (last s)"
  shows "strip s = s"
proof -
  have 1: "dropWhile isspace s = s" using assms by (simp add: dropWhile_eq_self_iff)
  have "dropWhile isspace (rev s) = rev s"
    using assms by (simp add: dropWhile_eq_self_iff hd_rev)
  with 1 show ?thesis by (simp add: strip_def)
qed

lemma contains_prefix: "prefix sub s \<Longrightarrow> contains sub s"
  by (cases s) auto

lemma contains_append: "contains sub (xs @ sub @ ys)"
  by (induction xs) (auto intro: contains_prefix)

lemma digits4_py_int:
  assumes "digits4 s = Some (g, r)"
  shows "\<exists>y. py_int g = Inr y"
proof -
  from assms have "4 \<le> length s" "list_all isdigit (take 4 s)" "g = take 4 s"
    by (auto simp: digits4_def split: if_splits)
  then have "g \<noteq> []" "list_all isdigit g" by auto
  then show ?thesis by (simp add: py_int_def)
qed

lemma digits4_four:
  assumes "isdigit c1" "isdigit c2" "isdigit c3" "isdigit c4"
  shows "digits4 (c1 # c2 # c3 # c4 # r) = Some ([c1, c2, c3, c4], r)"
  using assms by (simp add: digits4_def)

lemma dash_spaces:
  assumes "list_all isspace ws1" "list_all isspace ws2" "r \<noteq> []" "\<not> isspace (hd r)"
  shows "dash (ws1 @ CHR ''-'' # ws2 @ r) = Some r"
proof -
  have m: "\<not> isspace CHR ''-''" by (simp add: isspace_def)
  have "dropWhile isspace (ws1 @ CHR ''-'' # ws2 @ r) = CHR ''-'' # ws2 @ r"
    using assms(1) m by (induction ws1) auto
  moreover have "dropWhile isspace (ws2 @ r) = r"
    using assms(2-) by (induction ws2) (auto simp: dropWhile_eq_self_iff)
  ultimately show ?thesis by (simp add: dash_def)
qed

subsection \<open>Year ranges\<close>

lemma parse_year_range_digits:
  assumes d: "isdigit c1" "isdigit c2" "isdigit c3" "isdigit c4"
             "isdigit e1" "isdigit e2" "isdigit e3" "isdigit e4"
    and y: "py_int [c1, c2, c3, c4] = Inr y1" "py_int [e1, e2, e3, e4] = Inr y2"
  shows "parse_year_range ([c1, c2, c3, c4] @ ''-'' @ [e1, e2, e3, e4]) C = Inr (py_range y1 (y2 + 1))"
proof -
  let ?s = "[c1, c2, c3, c4, CHR ''-'', e1, e2, e3, e4]"
  have st: "strip ?s = ?s"
    using d by (intro strip_id) (simp_all add: isdigit_facts)
  have "lower_char CHR ''-'' = CHR ''-''" by (simp add: lower_char_def)
  then have lo: "lower ?s = ?s"
    using d by (simp add: lower_def isdigit_facts)
  have np: "\<not> contains ''present'' ?s"
    using d by (simp add: isdigit_facts)
  have da: "dash (CHR ''-'' # [e1, e2, e3, e4]) = Some [e1, e2, e3, e4]"
    using dash_spaces [of "[]" "[]" "[e1, e2, e3, e4]"] d by (simp add: isdigit_facts)
  have mr: "match_range ?s = Some ([c1, c2, c3, c4], [e1, e2, e3, e4])"
    using d da by (simp add: match_range_def digits4_four)
  show ?thesis
    using st lo np mr y by (simp add: parse_year_range_def)
qed

text \<open>
  C2. For four-digit years \<open>Y1 \<le> Y2\<close> and every current year \<open>C\<close>,
  \<open>parse_year_range\<close> of the text "Y1-Y2" returns the ascending list of all years
  from \<open>Y1\<close> to \<open>Y2\<close>, both endpoints included.
\<close>

theorem parse_year_range_inclusive:
  assumes "1000 \<le> Y1" "Y1 \<le> Y2" "Y2 \<le> 9999"
  shows "parse_year_range (str_int Y1 @ ''-'' @ str_int Y2) C = Inr [Y1..Y2]"
proof -
  from assms obtain c1 c2 c3 c4 where 1: "str_int Y1 = [c1, c2, c3, c4]"
    "isdigit c1" "isdigit c2" "isdigit c3" "isdigit c4" "py_int [c1, c2, c3, c4] = Inr Y1"
    using str_int_four [of Y1] by (metis order_trans)
  from assms obtain e1 e2 e3 e4 where 2: "str_int Y2 = [e1, e2, e3, e4]"
    "isdigit e1" "isdigit e2" "isdigit e3" "isdigit e4" "py_int [e1, e2, e3, e4] = Inr Y2"
    using str_int_four [of Y2] by (metis order_trans)
  show ?thesis
    using parse_year_range_digits [OF 1(2-5) 2(2-5) 1(6) 2(6), of C] 1(1) 2(1)
    by (simp add: py_range_def)
qed

theorem parse_year_range_inclusive_witness:
  "(1000::int) \<le> 2020 \<and> (2020::int) \<le> 2022 \<and> (2022::int) \<le> 9999
   \<and> parse_year_range (str_int 2020 @ ''-'' @ str_int 2022) 2026 = Inr [2020, 2021, 2022]
   \<and> str_int 2020 @ ''-'' @ str_int 2022 = ''2020-2022''"
proof -
  have s: "str_int 2020 @ ''-'' @ str_int 2022 = ''2020-2022''" by code_simp
  have u: "[2020..2022] = [2020, 2021, 2022 :: int]" by code_simp
  show ?thesis
    using parse_year_range_inclusive [of 2020 2022 2026] s u by simp
qed

text \<open>
  C10. For four-digit years \<open>Y1 > Y2\<close> and every current year \<open>C\<close>,
  \<open>parse_year_range\<close> of the text "Y1-Y2" returns the empty list: a reversed range
  gives no season, no error and no descending list.
\<close>

theorem parse_year_range_reversed:
  assumes "Y2 < Y1" "1000 \<le> Y2" "Y1 \<le> 9999"
  shows "parse_year_range (str_int Y1 @ ''-'' @ str_int Y2) C = Inr []"
proof -
  from assms obtain c1 c2 c3 c4 where 1: "str_int Y1 = [c1, c2, c3, c4]"
    "isdigit c1" "isdigit c2" "isdigit c3" "isdigit c4" "py_int [c1, c2, c3, c4] = Inr Y1"
    using str_int_four [of Y1] by (metis less_imp_le order_trans)
  from assms obtain e1 e2 e3 e4 where 2: "str_int Y2 = [e1, e2, e3, e4]"
    "isdigit e1" "isdigit e2" "isdigit e3" "isdigit e4" "py_int [e1, e2, e3, e4] = Inr Y2"
    using str_int_four [of Y2] by (metis less_imp_le order_trans)
  show ?thesis
    using parse_year_range_digits [OF 1(2-5) 2(2-5) 1(6) 2(6), of C] 1(1) 2(1) assms(1)
    by (simp add: py_range_def)
qed

theorem parse_year_range_reversed_witness:
  "(2020::int) < 2022 \<and> (1000::int) \<le> 2020 \<and> (2022::int) \<le> 9999
   \<and> parse_year_range (str_int 2022 @ ''-'' @ str_int 2020) 2026 = Inr []
   \<and> str_int 2022 @ ''-'' @ str_int 2020 = ''2022-2020''"
proof -
  have s: "str_int 2022 @ ''-'' @ str_int 2020 = ''2022-2020''" by code_simp
  show ?thesis
    using parse_year_range_reversed [of 2020 2022 2026] s by simp
qed

lemma lower_spaces: "list_all isspace ws \<Longrightarrow> lower ws = ws"
  by (induction ws) (auto simp: lower_def isspace_facts)

lemma lower_simps:
  "lower [] = []" "lower (x # xs) = lower_char x # lower xs" "lower (xs @ ys) = lower xs @ lower ys"
  by (simp_all add: lower_def)

text \<open>
  C3. For a four-digit year \<open>Y\<close> and a current year \<open>C\<close>, \<open>parse_year_range\<close> of
  "Y-present" returns the ascending list of the years from \<open>Y\<close> to \<open>C - 1\<close> when
  \<open>Y < C\<close> and the empty list otherwise. The word "present" may be written in any
  mix of upper and lower case (\<open>p\<close> is any text that lower-cases to it), and white
  space may stand on both sides of the dash.
\<close>

theorem parse_year_range_present:
  assumes Y: "1000 \<le> Y" "Y \<le> 9999"
    and ws: "list_all isspace ws1" "list_all isspace ws2"
    and p: "lower p = ''present''"
  shows "parse_year_range (str_int Y @ ws1 @ ''-'' @ ws2 @ p) C
           = Inr (if Y < C then [Y..C - 1] else [])"
proof -
  from Y obtain c1 c2 c3 c4 where 1: "str_int Y = [c1, c2, c3, c4]"
    "isdigit c1" "isdigit c2" "isdigit c3" "isdigit c4" "py_int [c1, c2, c3, c4] = Inr Y"
    using str_int_four [of Y] by metis
  let ?t = "[c1, c2, c3, c4] @ ws1 @ ''-'' @ ws2 @ p"
  let ?s = "[c1, c2, c3, c4] @ ws1 @ ''-'' @ ws2 @ ''present''"
  have pne: "p \<noteq> []" using p by (auto simp: lower_def)
  have "lower_char (last p) = CHR ''t''"
    using p pne by (metis last_map lower_def last.simps list.distinct(1) last_ConsR)
  moreover have "\<not> isspace CHR ''t''" by (simp add: isspace_def)
  ultimately have lp: "\<not> isspace (last p)"
    using isspace_facts(1) [of "last p"] by auto
  have st: "strip ?t = ?t"
    using 1 pne lp by (intro strip_id) (simp_all add: isdigit_facts)
  have "lower_char CHR ''-'' = CHR ''-''" by (simp add: lower_char_def)
  then have lo: "lower ?t = ?s"
    using 1 ws p by (simp add: lower_simps lower_spaces isdigit_facts)
  have c: "contains ''present'' ?s"
    using contains_append [of "''present''" "[c1, c2, c3, c4] @ ws1 @ ''-'' @ ws2" "[]"] by simp
  have "\<not> isspace (hd ''present'')" by (simp add: isspace_def)
  then have da: "dash (ws1 @ CHR ''-'' # ws2 @ ''present'') = Some ''present''"
    using dash_spaces [OF ws, of "''present''"] by simp
  have mp: "match_present ?s = Some [c1, c2, c3, c4]"
    using 1 da by (simp add: match_present_def digits4_four)
  have "parse_year_range ?t C = Inr (py_range Y C)"
    using st lo c mp 1(6) by (simp add: parse_year_range_def)
  then show ?thesis using 1(1) by (simp add: py_range_def)
qed

theorem parse_year_range_present_witness:
  "(1000::int) \<le> 2024 \<and> (2024::int) \<le> 9999 \<and> list_all isspace '' '' \<and> list_all isspace ''  ''
   \<and> lower ''PreSent'' = ''present''
   \<and> str_int 2024 @ '' '' @ ''-'' @ ''  '' @ ''PreSent'' = ''2024 -  PreSent''
   \<and> parse_year_range ''2024 -  PreSent'' 2026 = Inr [2024, 2025]
   \<and> parse_year_range ''2024 -  PreSent'' 2024 = Inr []"
proof -
  have h: "list_all isspace '' ''" "list_all isspace ''  ''" "lower ''PreSent'' = ''present''"
    by code_simp+
  have s: "str_int 2024 @ '' '' @ ''-'' @ ''  '' @ ''PreSent'' = ''2024 -  PreSent''" by code_simp
  have u: "[2024..2025] = [2024, 2025 :: int]" by code_simp
  have a: "parse_year_range ''2024 -  PreSent'' 2026 = Inr [2024, 2025]"
    using parse_year_range_present [OF _ _ h, of 2024 2026] s u by simp
  have b: "parse_year_range ''2024 -  PreSent'' 2024 = Inr []"
    using parse_year_range_present [OF _ _ h, of 2024 2024] s by simp
  show ?thesis using h s a b by simp
qed

lemma parse_year_range_returns: "\<exists>ys. parse_year_range s C = Inr ys"
proof -
  let ?s = "lower (strip s)"
  have 1: "match_present ?s = Some g \<Longrightarrow> \<exists>y. py_int g = Inr y" for g
    by (auto simp: match_present_def split: option.splits if_splits dest: digits4_py_int)
  have 2: "match_range ?s = Some (g1, g2) \<Longrightarrow> (\<exists>y. py_int g1 = Inr y) \<and> (\<exists>y. py_int g2 = Inr y)" for g1 g2
    by (auto simp: match_range_def split: option.splits dest: digits4_py_int)
  have 3: "match_single ?s = Some g \<Longrightarrow> \<exists>y. py_int g = Inr y" for g
    by (auto simp: match_single_def dest: digits4_py_int)
  show ?thesis
  proof (cases "contains ''present'' ?s")
    case True
    then show ?thesis using 1
      by (cases "match_present ?s") (auto simp: parse_year_range_def)
  next
    case False
    show ?thesis
    proof (cases "match_range ?s")
      case None
      then show ?thesis using False 3
        by (cases "match_single ?s") (auto simp: parse_year_range_def)
    next
      case (Some gs)
      then show ?thesis using False 2 [of "fst gs" "snd gs"]
        by (cases gs) (auto simp: parse_year_range_def)
    qed
  qed
qed

text \<open>
  C8. For every text and every current year \<open>parse_year_range\<close> returns a list and
  raises nothing; when the stripped, lower-cased text matches none of the three
  patterns the list is empty. The texts "twenty-twenty", "invalid" and "" are such.
\<close>

theorem parse_year_range_never_raises:
  "(\<exists>ys. parse_year_range s C = Inr ys)
   \<and> (match_present (lower (strip s)) = None \<and> match_range (lower (strip s)) = None
        \<and> match_single (lower (strip s)) = None \<longrightarrow> parse_year_range s C = Inr [])"
proof -
  let ?s = "lower (strip s)"
  have "match_present ?s = None \<and> match_range ?s = None \<and> match_single ?s = None
      \<longrightarrow> parse_year_range s C = Inr []"
    by (simp add: parse_year_range_def Let_def)
  with parse_year_range_returns [of s C] show ?thesis by blast
qed

theorem parse_year_range_never_raises_witness:
  "match_present (lower (strip ''twenty-twenty'')) = None
   \<and> match_range (lower (strip ''twenty-twenty'')) = None
   \<and> match_single (lower (strip ''twenty-twenty'')) = None
   \<and> parse_year_range ''twenty-twenty'' 2026 = Inr []
   \<and> parse_year_range ''invalid'' 2026 = Inr []
   \<and> parse_year_range '''' 2026 = Inr []"
proof -
  have d: "digits4 (lower (strip ''twenty-twenty'')) = None"
    "digits4 (lower (strip ''invalid'')) = None" "digits4 (lower (strip '''')) = None"
    by (simp_all add: digits4_def strip_def lower_def isspace_def isdigit_def lower_char_def)
  then have m: "match_present (lower (strip ''twenty-twenty'')) = None"
    "match_range (lower (strip ''twenty-twenty'')) = None"
    "match_single (lower (strip ''twenty-twenty'')) = None"
    "match_present (lower (strip ''invalid'')) = None"
    "match_range (lower (strip ''invalid'')) = None"
    "match_single (lower (strip ''invalid'')) = None"
    "match_present (lower (strip '''')) = None"
    "match_range (lower (strip '''')) = None"
    "match_single (lower (strip '''')) = None"
    by (simp_all add: match_present_def match_range_def match_single_def)
  show ?thesis
    using m parse_year_range_never_raises [of "''twenty-twenty''" 2026]
      parse_year_range_never_raises [of "''invalid''" 2026]
      parse_year_range_never_raises [of "''''" 2026]
    by simp
qed

subsection \<open>The normalizer\<close>

text \<open>
  C1. \<open>is_nfl_team\<close> holds for "Dallas Cowboys". For "Dallas Baptist University
  Cowboys" the first loop finds "COWBOYS" and is stopped by "UNIVERSITY"; the second
  loop then finds the city "DALLAS" at the start of the name and "COWBOYS" in the
  rest, where nothing looks for "UNIVERSITY", and the function returns \<open>True\<close>.
\<close>

theorem is_nfl_team_university_guard_bypassed:
  "is_nfl_team ''Dallas Cowboys'' = True
   \<and> is_nfl_team ''Dallas Baptist University Cowboys'' = True"
  by code_simp

text \<open>
  C5. When the cleaned name is in the set of canonical names and is also a key of the
  reverse alias index, bound there to another canonical name, \<open>normalize\<close> returns
  the cleaned name itself with match type "exact", whatever \<open>use_fuzzy\<close> is, and
  leaves the normalizer as it was: no later check runs.
\<close>

theorem normalize_exact_before_alias:
  assumes "clean_school_name name \<in> set (nmdp_schools self)"
    and "reverse_aliases self (clean_school_name name) = Some other"
    and "other \<noteq> clean_school_name name"
  shows "normalize self name use_fuzzy fuzzy_threshold = ((clean_school_name name, ''exact''), self)"
  using assms by (simp add: normalize_def)

theorem normalize_exact_before_alias_witness:
  "clean_school_name ''  miami '' \<in> set [''MIAMI'', ''OHIO'']
   \<and> [''MIAMI'' \<mapsto> ''OHIO''] (clean_school_name ''  miami '') = Some ''OHIO''
   \<and> ''OHIO'' \<noteq> clean_school_name ''  miami ''
   \<and> normalize \<lparr>nmdp_db = [], aliases = [], nmdp_schools = [''MIAMI'', ''OHIO''],
                  reverse_aliases = [''MIAMI'' \<mapsto> ''OHIO''], fuzzy_match_log = []\<rparr>
        ''  miami '' True (85 / 100)
      = ((''MIAMI'', ''exact''),
         \<lparr>nmdp_db = [], aliases = [], nmdp_schools = [''MIAMI'', ''OHIO''],
          reverse_aliases = [''MIAMI'' \<mapsto> ''OHIO''], fuzzy_match_log = []\<rparr>)"
proof -
  have c: "clean_school_name ''  miami '' = ''MIAMI''" by code_simp
  show ?thesis
    using normalize_exact_before_alias [of "''  miami ''"
        "\<lparr>nmdp_db = [], aliases = [], nmdp_schools = [''MIAMI'', ''OHIO''],
          reverse_aliases = [''MIAMI'' \<mapsto> ''OHIO''], fuzzy_match_log = []\<rparr>" "''OHIO''" True "85 / 100"]
    by (simp add: c)
qed

subsection \<open>The reverse alias index\<close>

lemma build_reverse_alias_map_foldl:
  "build_reverse_alias_map tbl = foldl alias_step Map.empty tbl"
proof -
  have "alias_step = (\<lambda>reverse_map (canonical, alias_list).
              if startswith canonical ''_'' then reverse_map
              else add_aliases (upper canonical) alias_list reverse_map)"
    by (auto simp: alias_step_def fun_eq_iff)
  then show ?thesis by (simp add: build_reverse_alias_map_def)
qed

lemma add_aliases_other:
  "k \<notin> set (map upper als) \<Longrightarrow> add_aliases cu als m k = m k"
  unfolding add_aliases_def by (induction als arbitrary: m) auto

lemma add_aliases_Cons:
  "add_aliases cu (x # xs) m = add_aliases cu xs (m(upper x \<mapsto> cu))"
  by (simp add: add_aliases_def)

lemma add_aliases_hit:
  "k \<in> set (map upper als) \<Longrightarrow> add_aliases cu als m k = Some cu"
proof (induction als arbitrary: m)
  case Nil
  then show ?case by simp
next
  case (Cons x xs)
  show ?case
  proof (cases "k \<in> set (map upper xs)")
    case True
    then show ?thesis using Cons.IH [of "m(upper x \<mapsto> cu)"] by (simp only: add_aliases_Cons)
  next
    case False
    then have "k = upper x" using Cons.prems by simp
    then show ?thesis
      using add_aliases_other [OF False, of cu "m(upper x \<mapsto> cu)"]
      by (simp add: add_aliases_Cons)
  qed
qed

lemma foldl_alias_step_other:
  assumes "\<forall>e \<in> set ys. startswith (fst e) ''_'' \<or> k \<notin> set (map upper (snd e))"
  shows "foldl alias_step m ys k = m k"
  using assms
proof (induction ys arbitrary: m)
  case Nil
  then show ?case by simp
next
  case (Cons e ys)
  have "alias_step m e k = m k"
    using Cons.prems by (cases e) (auto simp: alias_step_def add_aliases_other)
  then show ?case using Cons by simp
qed

text \<open>
  C6. In \<open>build_reverse_alias_map\<close> the last entry of the table that writes a key
  wins: if the entry \<open>(c, als)\<close> has a key that does not begin with "_" and lists
  the alias \<open>a\<close>, and no entry after it that counts lists an alias with the same
  upper-case form, the index binds \<open>upper a\<close> to the canonical name \<open>c\<close> (upper-cased,
  as the code stores it), whatever the entries before it say. An entry whose key
  begins with "_" contributes nothing: the index is that of the table without it.
\<close>

theorem build_reverse_alias_map_last_wins:
  "(\<not> startswith c ''_'' \<and> a \<in> set als
      \<and> (\<forall>e \<in> set ys. startswith (fst e) ''_'' \<or> upper a \<notin> set (map upper (snd e)))
      \<longrightarrow> build_reverse_alias_map (xs @ (c, als) # ys) (upper a) = Some (upper c))
   \<and> (startswith c ''_''
      \<longrightarrow> build_reverse_alias_map (xs @ (c, als) # ys) = build_reverse_alias_map (xs @ ys))"
proof (intro conjI impI)
  assume h: "\<not> startswith c ''_'' \<and> a \<in> set als
      \<and> (\<forall>e \<in> set ys. startswith (fst e) ''_'' \<or> upper a \<notin> set (map upper (snd e)))"
  let ?m = "foldl alias_step Map.empty xs"
  have "alias_step ?m (c, als) (upper a) = Some (upper c)"
    using h by (simp add: alias_step_def add_aliases_hit)
  then show "build_reverse_alias_map (xs @ (c, als) # ys) (upper a) = Some (upper c)"
    using h foldl_alias_step_other [of ys "upper a" "alias_step ?m (c, als)"]
    by (simp add: build_reverse_alias_map_foldl)
next
  assume "startswith c ''_''"
  then show "build_reverse_alias_map (xs @ (c, als) # ys) = build_reverse_alias_map (xs @ ys)"
    by (simp add: build_reverse_alias_map_foldl alias_step_def)
qed

theorem build_reverse_alias_map_last_wins_witness:
  "\<not> startswith ''Miami University'' ''_'' \<and> ''Miami'' \<in> set [''Miami'', ''MU'']
   \<and> build_reverse_alias_map
       ([(''University of Miami'', [''miami'', ''The U''])]
         @ (''Miami University'', [''Miami'', ''MU'']) # [(''_comment'', [''miami''])]) (upper ''Miami'')
      = Some (upper ''Miami University'')
   \<and> startswith ''_comment'' ''_''
   \<and> build_reverse_alias_map ([(''University of Miami'', [''miami''])] @ (''_comment'', [''x'']) # [])
      = build_reverse_alias_map ([(''University of Miami'', [''miami''])] @ [])"
proof -
  have 1: "\<not> startswith ''Miami University'' ''_''" "startswith ''_comment'' ''_''"
    by (simp_all add: startswith_def)
  have 2: "\<forall>e \<in> set [(''_comment'', [''miami''])].
         startswith (fst e) ''_'' \<or> upper ''Miami'' \<notin> set (map upper (snd e))"
    by (simp add: startswith_def)
  show ?thesis
    using 1 2
      build_reverse_alias_map_last_wins [of "''Miami University''" "''Miami''" "[''Miami'', ''MU'']"
        "[(''_comment'', [''miami''])]" "[(''University of Miami'', [''miami'', ''The U''])]"]
      build_reverse_alias_map_last_wins [of "''_comment''" "''x''" "[''x'']" "[]"
        "[(''University of Miami'', [''miami''])]"]
    by simp
qed

text \<open>
  C9. A call of \<open>normalize\<close> changes nothing of the normalizer but, at most, the log
  of fuzzy matches, to which it appends one entry; the canonical names, the reverse
  alias index and the loaded tables stay. When \<open>use_fuzzy\<close> is false, or the match
  type returned is not "fuzzy", the whole normalizer is as before the call.
\<close>

theorem normalize_frame:
  assumes "normalize self name use_fuzzy fuzzy_threshold = ((result, mtype), self')"
  shows "nmdp_db self' = nmdp_db self \<and> aliases self' = aliases self
         \<and> nmdp_schools self' = nmdp_schools self \<and> reverse_aliases self' = reverse_aliases self
         \<and> (fuzzy_match_log self' = fuzzy_match_log self
              \<or> (\<exists>entry. fuzzy_match_log self' = fuzzy_match_log self @ [entry]))
         \<and> (\<not> use_fuzzy \<or> mtype \<noteq> ''fuzzy'' \<longrightarrow> self' = self)"
  using assms
  by (auto simp: normalize_def Let_def split: if_splits option.splits)

theorem normalize_frame_witness:
  "normalize \<lparr>nmdp_db = [], aliases = [], nmdp_schools = [''TULANE''],
              reverse_aliases = Map.empty, fuzzy_match_log = []\<rparr> ''Tulan'' False (85 / 100)
     = ((''TULAN'', ''none''),
        \<lparr>nmdp_db = [], aliases = [], nmdp_schools = [''TULANE''],
         reverse_aliases = Map.empty, fuzzy_match_log = []\<rparr>)
   \<and> normalize \<lparr>nmdp_db = [], aliases = [], nmdp_schools = [''TULANE''],
              reverse_aliases = Map.empty, fuzzy_match_log = []\<rparr> ''Tulan'' True (85 / 100)
     = ((''TULANE'', ''fuzzy''),
        \<lparr>nmdp_db = [], aliases = [], nmdp_schools = [''TULANE''],
         reverse_aliases = Map.empty,
         fuzzy_match_log = [\<lparr>original = ''Tulan'', matched_to = ''TULANE'', score = 10 / 11\<rparr>]\<rparr>)
   \<and> fuzzy_match_log \<lparr>nmdp_db = [], aliases = [], nmdp_schools = [''TULANE''],
         reverse_aliases = Map.empty, fuzzy_match_log = ([] :: fuzzy_entry list)\<rparr> = []"
proof -
  let ?N = "\<lparr>nmdp_db = [], aliases = [], nmdp_schools = [''TULANE''],
              reverse_aliases = Map.empty, fuzzy_match_log = []\<rparr>"
  have c: "clean_school_name ''Tulan'' = ''TULAN''" by code_simp
  have f: "fuzzy_match ''TULAN'' [''TULANE''] (17 / 20) = Some (''TULANE'', 10 / 11)"
    by code_simp
  have 1: "normalize ?N ''Tulan'' False (85 / 100) = ((''TULAN'', ''none''), ?N)"
    by (simp add: normalize_def c)
  have 2: "normalize ?N ''Tulan'' True (85 / 100)
     = ((''TULANE'', ''fuzzy''), ?N\<lparr>fuzzy_match_log :=
          [\<lparr>original = ''Tulan'', matched_to = ''TULANE'', score = 10 / 11\<rparr>]\<rparr>)"
    by (simp add: normalize_def c f Let_def)
  show ?thesis
    using 1 2 normalize_frame [OF 1] by simp
qed

subsection \<open>Overlaps\<close>

lemma normalize_no_fuzzy: "snd (normalize self name False threshold) = self"
  by (simp add: normalize_def Let_def split: option.splits)

lemma find_overlaps_loop_eq:
  "find_overlaps_loop db year_start year_end rest self acc =
     Inr (acc @ concat (map (\<lambda>st.
            case stint_target db self st of
              None \<Rightarrow> []
            | Some t \<Rightarrow>
                (case parse_year_range (t_years t) year_end of
                   Inl e \<Rightarrow> []
                 | Inr parsed \<Rightarrow>
                     records_for t (filter (\<lambda>y. year_start \<le> y \<and> y < year_end) parsed))) rest),
          self)"
proof (induction rest arbitrary: acc)
  case Nil
  show ?case by simp
next
  case (Cons st rest)
  define sch where "sch = (case school st of None \<Rightarrow> [] | Some s \<Rightarrow> s)"
  define yrs where "yrs = (case years st of None \<Rightarrow> [] | Some s \<Rightarrow> s)"
  define pos where "pos = (case position st of None \<Rightarrow> ''Unknown'' | Some s \<Rightarrow> s)"
  show ?case
  proof (cases "sch = [] \<or> yrs = [] \<or> is_nfl_team sch")
    case True
    then have "stint_target db self st = None"
      by (auto simp: stint_target_def sch_def yrs_def Let_def)
    moreover have "find_overlaps_loop db year_start year_end (st # rest) self acc
        = find_overlaps_loop db year_start year_end rest self acc"
      using True by (auto simp: sch_def yrs_def Let_def)
    ultimately show ?thesis using Cons.IH [of acc] by simp
  next
    case False
    obtain ns mt where n: "normalize self sch False (85 / 100) = ((ns, mt), self)"
      using normalize_no_fuzzy [of self sch "85 / 100"]
      by (metis prod.collapse)
    show ?thesis
    proof (cases "db ns")
      case None
      then have "stint_target db self st = None"
        using False n
        by (simp add: stint_target_def sch_def [symmetric] yrs_def [symmetric] Let_def)
      moreover have "find_overlaps_loop db year_start year_end (st # rest) self acc
          = find_overlaps_loop db year_start year_end rest self acc"
        using False n None by (simp add: sch_def [symmetric] yrs_def [symmetric] Let_def)
      ultimately show ?thesis using Cons.IH [of acc] by simp
    next
      case (Some nmdp_years)
      let ?t = "\<lparr>t_school = sch, t_years = yrs, t_position = pos,
                        t_canonical = ns, t_match_type = mt, t_program_years = nmdp_years\<rparr>"
      obtain parsed where p: "parse_year_range yrs year_end = Inr parsed"
        using parse_year_range_returns by blast
      let ?new = "records_for ?t (filter (\<lambda>y. year_start \<le> y \<and> y < year_end) parsed)"
      have t: "stint_target db self st = Some ?t"
        using False n Some
        by (simp add: stint_target_def sch_def [symmetric] yrs_def [symmetric]
            pos_def [symmetric] Let_def)
      have "find_overlaps_loop db year_start year_end (st # rest) self acc
          = find_overlaps_loop db year_start year_end rest self (acc @ ?new)"
        using False n Some p
        by (simp add: sch_def [symmetric] yrs_def [symmetric] pos_def [symmetric] Let_def
            records_for_def)
      then show ?thesis using Cons.IH [of "acc @ ?new"] t p by simp
    qed
  qed
qed

lemma records_for_window:
  assumes "r \<in> set (records_for t (filter (\<lambda>y. year_start \<le> y \<and> y < year_end) parsed))"
  shows "\<exists>y \<in> set parsed. year_start \<le> y \<and> y < year_end
           \<and> academic_year r = year_to_academic_year y"
  using assms by (auto simp: records_for_def)

text \<open>
  C4. \<open>find_overlaps_for_coach\<close> returns, with the normalizer as it was, exactly this
  list: for each stint that is not skipped, in the order of the stints, the records
  of the seasons parsed from the stint's years text with \<open>year_end\<close> as the year of
  "present" and then filtered to \<open>year_start \<le> y < year_end\<close> (those among them whose
  academic year the program database lists for the school). Hence every record
  emitted belongs to a season \<open>y\<close> with \<open>year_start \<le> y < year_end\<close>.
\<close>

theorem find_overlaps_for_coach_window:
  "\<exists>emitted.
     find_overlaps_for_coach stints db self year_start year_end = Inr (emitted, self)
     \<and> emitted = concat (map (\<lambda>st.
            case stint_target db self st of
              None \<Rightarrow> []
            | Some t \<Rightarrow>
                (case parse_year_range (t_years t) year_end of
                   Inl e \<Rightarrow> []
                 | Inr parsed \<Rightarrow>
                     records_for t (filter (\<lambda>y. year_start \<le> y \<and> y < year_end) parsed))) stints)
     \<and> (\<forall>r \<in> set emitted. \<exists>y. year_start \<le> y \<and> y < year_end
            \<and> academic_year r = year_to_academic_year y)"
proof -
  let ?f = "\<lambda>st. case stint_target db self st of
              None \<Rightarrow> []
            | Some t \<Rightarrow>
                (case parse_year_range (t_years t) year_end of
                   Inl e \<Rightarrow> []
                 | Inr parsed \<Rightarrow>
                     records_for t (filter (\<lambda>y. year_start \<le> y \<and> y < year_end) parsed))"
  have e: "find_overlaps_for_coach stints db self year_start year_end
      = Inr (concat (map ?f stints), self)"
    using find_overlaps_loop_eq [of db year_start year_end stints self "[]"]
    by (simp add: find_overlaps_for_coach_def)
  have "\<exists>y. year_start \<le> y \<and> y < year_end \<and> academic_year r = year_to_academic_year y"
    if "r \<in> set (concat (map ?f stints))" for r
  proof -
    from that obtain st where "r \<in> set (?f st)" by auto
    then show ?thesis
      by (auto split: option.splits sum.splits dest: records_for_window)
  qed
  with e show ?thesis by blast
qed


theorem find_overlaps_for_coach_window_witness:
  "find_overlaps_for_coach
     [\<lparr>school = Some ''Oregon State'', years = Some ''2019-present'', position = Some ''HC'',
       source_url = None\<rparr>]
     [''OREGON STATE'' \<mapsto> [''2019-2020'', ''2020-2021'', ''2025-2026'', ''2026-2027'']]
     \<lparr>nmdp_db = [], aliases = [], nmdp_schools = [''OREGON STATE''],
      reverse_aliases = Map.empty, fuzzy_match_log = []\<rparr> 2020 2026
   = Inr ([\<lparr>ov_school = ''OREGON STATE'', school_original = ''Oregon State'',
            academic_year = ''2020-2021'', coach_position = ''HC'', match_type = ''exact''\<rparr>,
           \<lparr>ov_school = ''OREGON STATE'', school_original = ''Oregon State'',
            academic_year = ''2025-2026'', coach_position = ''HC'', match_type = ''exact''\<rparr>],
          \<lparr>nmdp_db = [], aliases = [], nmdp_schools = [''OREGON STATE''],
           reverse_aliases = Map.empty, fuzzy_match_log = []\<rparr>)
   \<and> (\<exists>y. 2020 \<le> y \<and> y < 2026 \<and> ''2020-2021'' = year_to_academic_year y)
   \<and> (\<exists>y. 2020 \<le> y \<and> y < 2026 \<and> ''2025-2026'' = year_to_academic_year y)"
proof -
  let ?st = "\<lparr>school = Some ''Oregon State'', years = Some ''2019-present'', position = Some ''HC'',
       source_url = None\<rparr>"
  let ?db = "[''OREGON STATE'' \<mapsto> [''2019-2020'', ''2020-2021'', ''2025-2026'', ''2026-2027'']]"
  let ?N = "\<lparr>nmdp_db = [], aliases = [], nmdp_schools = [''OREGON STATE''],
      reverse_aliases = Map.empty, fuzzy_match_log = []\<rparr>"
  let ?r1 = "\<lparr>ov_school = ''OREGON STATE'', school_original = ''Oregon State'',
            academic_year = ''2020-2021'', coach_position = ''HC'', match_type = ''exact''\<rparr>"
  let ?r2 = "\<lparr>ov_school = ''OREGON STATE'', school_original = ''Oregon State'',
            academic_year = ''2025-2026'', coach_position = ''HC'', match_type = ''exact''\<rparr>"
  have c: "clean_school_name ''Oregon State'' = ''OREGON STATE''" by code_simp
  have n: "\<not> is_nfl_team ''Oregon State''" by code_simp
  have p: "parse_year_range ''2019-present'' 2026 = Inr [2019, 2020, 2021, 2022, 2023, 2024, 2025]"
    by code_simp
  have y: "year_to_academic_year 2019 = ''2019-2020''" "year_to_academic_year 2020 = ''2020-2021''"
    "year_to_academic_year 2021 = ''2021-2022''" "year_to_academic_year 2022 = ''2022-2023''"
    "year_to_academic_year 2023 = ''2023-2024''" "year_to_academic_year 2024 = ''2024-2025''"
    "year_to_academic_year 2025 = ''2025-2026''"
    by code_simp+
  have nz: "normalize ?N ''Oregon State'' False (85 / 100) = ((''OREGON STATE'', ''exact''), ?N)"
    by (simp add: normalize_def c Let_def)
  have e: "find_overlaps_for_coach [?st] ?db ?N 2020 2026 = Inr ([?r1, ?r2], ?N)"
    using n nz p by (simp add: find_overlaps_for_coach_def y Let_def)
  from find_overlaps_for_coach_window [of "[?st]" ?db ?N 2020 2026]
  obtain emitted where em: "find_overlaps_for_coach [?st] ?db ?N 2020 2026 = Inr (emitted, ?N)"
    and w: "\<forall>r \<in> set emitted. \<exists>y. 2020 \<le> y \<and> y < 2026
            \<and> academic_year r = year_to_academic_year y"
    by blast
  from em e have "emitted = [?r1, ?r2]" by simp
  with w have "\<exists>y. 2020 \<le> y \<and> y < 2026 \<and> academic_year ?r1 = year_to_academic_year y"
    "\<exists>y. 2020 \<le> y \<and> y < 2026 \<and> academic_year ?r2 = year_to_academic_year y"
    by simp_all
  then show ?thesis using e by simp
qed

subsection \<open>The similarity ratio\<close>

lemma matched_simps [simp]:
  "matched [] = 0" "matched ((i, j, k) # xs) = k + matched xs"
  "matched (xs @ ys) = matched xs + matched ys"
  by (simp_all add: matched_def)

lemma matched_collapse: "matched (collapse (i, j, k) xs) = k + matched xs"
proof (induction xs arbitrary: i j k)
  case Nil
  then show ?case by simp
next
  case (Cons x xs)
  then show ?case by (cases x) simp
qed

lemma matched_insort: "matched (insort x xs) = matched [x] + matched xs"
  by (induction xs) (auto simp: matched_def)

lemma matched_sort: "matched (sort xs) = matched xs"
proof (induction xs)
  case Nil
  then show ?case by simp
next
  case (Cons x xs)
  then show ?case using matched_insort [of x "sort xs"] by (cases x) (simp add: matched_def)
qed

lemma matched_blocks_loop:
  "matched (blocks_loop a b queue mbs) \<le> matched mbs + sum_list (map cap queue)"
proof (induction a b queue mbs rule: blocks_loop.induct)
  case (1 a b matching_blocks)
  then show ?case by (simp add: blocks_loop.simps)
next
  case (2 a b alo ahi blo bhi queue mbs)
  obtain i j k where x: "find_longest_match a b alo ahi blo bhi = (i, j, k)"
    by (metis prod.exhaust)
  have mi: "match_in alo ahi blo bhi (i, j, k)"
    using find_longest_match_in [of alo ahi blo bhi a b] x by simp
  show ?case
  proof (cases "k = 0")
    case True
    have "matched (blocks_loop a b queue mbs) \<le> matched mbs + sum_list (map cap queue)"
      using "2.IH"(2) [OF x [symmetric]] True by simp
    then have "matched (blocks_loop a b queue mbs)
        \<le> matched mbs + (cap (alo, ahi, blo, bhi) + sum_list (map cap queue))"
      by linarith
    then show ?thesis using x True by (subst blocks_loop.simps) (simp add: Let_def)
  next
    case False
    let ?q = "(if i + k < ahi \<and> j + k < bhi then [(i + k, ahi, j + k, bhi)] else []) @
              (if alo < i \<and> blo < j then [(alo, i, blo, j)] else []) @ queue"
    have e: "blocks_loop a b ((alo, ahi, blo, bhi) # queue) mbs
        = blocks_loop a b ?q (mbs @ [(i, j, k)])"
      using x False by (subst blocks_loop.simps) (simp add: Let_def)
    have "matched (blocks_loop a b ?q (mbs @ [(i, j, k)]))
        \<le> matched (mbs @ [(i, j, k)]) + sum_list (map cap ?q)"
      using "2.IH"(1) [OF x [symmetric] _ _ _ False] x by simp
    then have 1: "matched (blocks_loop a b ?q (mbs @ [(i, j, k)]))
        \<le> matched mbs + (k + sum_list (map cap ?q))"
      by (simp only: matched_simps)
    have 2: "k + sum_list (map cap ?q) \<le> cap (alo, ahi, blo, bhi) + sum_list (map cap queue)"
      using mi False by (auto simp: match_in_def cap_def)
    from 1 2 have "matched (blocks_loop a b ?q (mbs @ [(i, j, k)]))
        \<le> matched mbs + (cap (alo, ahi, blo, bhi) + sum_list (map cap queue))"
      by linarith
    then show ?thesis by (simp only: e list.map sum_list.Cons)
  qed
qed

lemma matched_get_matching_blocks:
  "matched (get_matching_blocks a b) \<le> min (length a) (length b)"
  using matched_blocks_loop [of a b "[(0, length a, 0, length b)]" "[]"]
  by (simp add: get_matching_blocks_def matched_collapse matched_sort cap_def)

lemma ratio_bounds: "0 \<le> ratio a b \<and> ratio a b \<le> 1"
proof (cases "length a + length b = 0")
  case True
  then show ?thesis by (simp add: ratio_def calculate_ratio_def)
next
  case False
  let ?m = "matched (get_matching_blocks a b)"
  let ?n = "length a + length b"
  have "2 * ?m \<le> ?n"
    using matched_get_matching_blocks [of a b] by simp
  then have "(of_nat (2 * ?m) :: rat) \<le> of_nat ?n"
    by (simp only: of_nat_le_iff)
  then have le: "2 * (of_nat ?m :: rat) \<le> of_nat ?n" by simp
  have "0 < ?n" using False by simp
  then have pos: "(0 :: rat) < of_nat ?n" by (simp only: of_nat_0_less_iff)
  have r: "ratio a b = 2 * of_nat ?m / of_nat ?n"
    using False by (simp add: ratio_def calculate_ratio_def matched_def)
  have "0 \<le> 2 * (of_nat ?m :: rat) / of_nat ?n" by simp
  moreover have "2 * (of_nat ?m :: rat) / of_nat ?n \<le> 1"
    using le pos by (simp only: divide_le_eq_1_pos)
  ultimately show ?thesis using r by simp
qed

lemma diag_prev: "diag a i = (if popular a (a ! i) then 0 else prev a i + 1)"
  by (cases i) (simp_all add: prev_def)

lemma row_ok_j2lenget:
  assumes "row_ok a i m"
  shows "j2lenget m j \<le> prev a i" "j2lenget m j \<le> prev a j"
  using assms by (auto simp: row_ok_def j2lenget_def prev_def split: option.splits nat.splits)

lemma inner_loop_diag:
  assumes row: "row_ok a i m" and np: "\<not> popular a (a ! i)"
    and js: "sorted_wrt (<) js" "\<forall>j \<in> set js. j < n \<and> a ! j = a ! i"
    and ok: "inner_ok a i js st"
  shows "inner_ok a i [] (inner_loop i 0 n m js st)"
  using js ok
proof (induction js arbitrary: st)
  case Nil
  then show ?case by simp
next
  case (Cons j js)
  obtain newm bi bj bs where st: "st = (newm, (bi, bj, bs))" by (metis prod.exhaust)
  define k where "k = j2lenget m j + 1"
  have jn: "j < n" "a ! j = a ! i" using Cons.prems(2) by auto
  have kd: "k \<le> diag a i" "k \<le> diag a j"
    using row_ok_j2lenget [OF row, of j] np jn
    by (simp_all add: k_def diag_prev [of a i] diag_prev [of a j])
  have ki: "j = i \<Longrightarrow> k = diag a i"
    using row np by (simp add: k_def row_ok_def diag_prev [of a i])
  let ?st = "(newm(j \<mapsto> k), if bs < k then (i + 1 - k, j + 1 - k, k) else (bi, bj, bs))"
  have step: "inner_loop i 0 n m (j # js) st = inner_loop i 0 n m js ?st"
    using jn by (simp add: st k_def Let_def)
  have old: "\<forall>j v. newm j = Some v \<longrightarrow> v \<le> diag a i \<and> v \<le> diag a j"
    "bi = bj" "\<forall>i' < i. diag a i' \<le> bs"
    "i \<in> set (j # js) \<or> ((\<forall>j' \<in> set (j # js). i < j') \<and> newm i = Some (diag a i) \<and> diag a i \<le> bs)"
    using Cons.prems(3) by (auto simp: inner_ok_def st best_ok_def)
  have lt: "\<forall>j' \<in> set js. j < j'" using Cons.prems(1) by simp
  have "inner_ok a i js ?st"
  proof (cases "j = i")
    case True
    then show ?thesis
      using old kd ki lt by (auto simp: inner_ok_def best_ok_def)
  next
    case False
    show ?thesis
    proof (cases "i \<in> set js")
      case True
      then have "j < i" using lt by auto
      then have "k \<le> bs" using old(3) kd(2) by (meson le_trans)
      then show ?thesis
        using old kd True by (auto simp: inner_ok_def best_ok_def)
    next
      case nin: False
      then have o: "i < j" "\<forall>j' \<in> set js. i < j'" "newm i = Some (diag a i)" "diag a i \<le> bs"
        using old(4) False by auto
      then have "k \<le> bs" using kd(1) by simp
      then show ?thesis
        using old kd o False by (auto simp: inner_ok_def best_ok_def)
    qed
  qed
  from Cons.IH [OF _ _ this] Cons.prems(1,2) show ?case
    by (simp only: step) simp
qed


lemma b2j_props:
  assumes "\<not> popular a c"
  shows "sorted_wrt (<) (b2j a c)" "\<forall>j \<in> set (b2j a c). j < length a \<and> a ! j = c"
    "i < length a \<Longrightarrow> a ! i = c \<Longrightarrow> i \<in> set (b2j a c)"
  using assms by (auto simp: b2j_def sorted_wrt_filter)

lemma row_step:
  assumes row: "row_ok a i m" and best: "best_ok a i best" and i: "i < length a"
    and r: "inner_loop i 0 (length a) m (b2j a (a ! i)) (Map.empty, best) = (m', best')"
  shows "row_ok a (Suc i) m' \<and> best_ok a (Suc i) best'"
proof (cases "popular a (a ! i)")
  case True
  then have "m' = Map.empty" "best' = best" using r by (simp_all add: b2j_def)
  moreover have "diag a i = 0" using True by (simp add: diag_prev [of a i])
  ultimately show ?thesis
    using best by (auto simp: row_ok_def best_ok_def prev_def j2lenget_def less_Suc_eq)
next
  case False
  have "inner_ok a i (b2j a (a ! i)) (Map.empty, best)"
    using best b2j_props(3) [OF False i] by (simp add: inner_ok_def)
  from inner_loop_diag [OF row False b2j_props(1) [OF False] b2j_props(2) [OF False] this]
  have ok: "inner_ok a i [] (m', best')" using r by simp
  obtain bi bj bs where b: "best' = (bi, bj, bs)" by (metis prod.exhaust)
  have 1: "\<forall>j v. m' j = Some v \<longrightarrow> v \<le> diag a i \<and> v \<le> diag a j"
    and 2: "bi = bj" "\<forall>i' < i. diag a i' \<le> bs" "m' i = Some (diag a i)" "diag a i \<le> bs"
    using ok by (auto simp: inner_ok_def best_ok_def b)
  have "row_ok a (Suc i) m'"
    using 1 2(3) by (simp add: row_ok_def prev_def j2lenget_def)
  moreover have "best_ok a (Suc i) best'"
    using 2 by (auto simp: best_ok_def b less_Suc_eq)
  ultimately show ?thesis by simp
qed

lemma outer_loop_diag:
  assumes "row_ok a i0 m" "best_ok a i0 best" "n = length a"
  shows "best_ok a n (snd (outer_loop a a 0 n [i0..<n] (m, best))) \<or> n < i0"
  using assms
proof (induction "n - i0" arbitrary: i0 m best)
  case 0
  then show ?case by (cases "n < i0") auto
next
  case (Suc d)
  then have lt: "i0 < n" by simp
  obtain m' best' where r: "inner_loop i0 0 n m (b2j a (a ! i0)) (Map.empty, best) = (m', best')"
    by (metis prod.exhaust)
  have s: "row_ok a (Suc i0) m' \<and> best_ok a (Suc i0) best'"
    using row_step [OF Suc.prems(1,2), of m' best'] lt r Suc.prems(3) by simp
  have "d = n - Suc i0" using Suc.hyps(2) by simp
  from Suc.hyps(1) [OF this _ _ Suc.prems(3), of m' best'] s lt
  have "best_ok a n (snd (outer_loop a a 0 n [Suc i0..<n] (m', best')))" by auto
  then show ?case using lt r by (simp add: upt_rec [of i0 n])
qed

lemma extend_back_self:
  "extend_back a a 0 0 (\<lambda>c. \<not> isbjunk c) (d, d, s) = (0, 0, s + d)"
proof (induction d arbitrary: s)
  case 0
  show ?case by (subst extend_back.simps) simp
next
  case (Suc d)
  show ?case using Suc [of "s + 1"] by (subst extend_back.simps) (simp add: isbjunk_def)
qed

lemma extend_fwd_self:
  "s \<le> n \<Longrightarrow> extend_fwd a a n n (\<lambda>c. \<not> isbjunk c) (0, 0, s) = (0, 0, n)"
proof (induction "n - s" arbitrary: s)
  case 0
  then show ?case by (subst extend_fwd.simps) simp
next
  case (Suc d)
  then have "extend_fwd a a n n (\<lambda>c. \<not> isbjunk c) (0, 0, s + 1) = (0, 0, n)" by simp
  moreover have "s < n" using Suc.hyps(2) by linarith
  ultimately show ?case by (subst extend_fwd.simps) (simp add: isbjunk_def)
qed

lemma extend_junk:
  "extend_back a b alo blo isbjunk x = x" "extend_fwd a b ahi bhi isbjunk x = x"
proof -
  obtain i j k where x: "x = (i, j, k)" by (metis prod.exhaust)
  show "extend_back a b alo blo isbjunk x = x"
    unfolding x by (subst extend_back.simps) (simp add: isbjunk_def)
  show "extend_fwd a b ahi bhi isbjunk x = x"
    unfolding x by (subst extend_fwd.simps) (simp add: isbjunk_def)
qed

lemma find_longest_match_self:
  "find_longest_match a a 0 (length a) 0 (length a) = (0, 0, length a)"
proof -
  let ?n = "length a"
  let ?best0 = "snd (outer_loop a a 0 ?n [0..<?n] (Map.empty, (0, 0, 0)))"
  obtain bi bj bs where b: "?best0 = (bi, bj, bs)" by (metis prod.exhaust)
  have "row_ok a 0 Map.empty" by (simp add: row_ok_def prev_def j2lenget_def)
  moreover have "best_ok a 0 (0, 0, 0)" by (simp add: best_ok_def)
  ultimately have "best_ok a ?n ?best0"
    using outer_loop_diag [of a 0 Map.empty "(0, 0, 0)" ?n] by simp
  then have d: "bi = bj" by (simp add: b best_ok_def)
  have "j2len_ok 0 0 0 Map.empty" by (simp add: j2len_ok_def)
  moreover have "match_in 0 ?n 0 ?n (0, 0, 0)" by (simp add: match_in_def)
  ultimately have "match_in 0 ?n 0 ?n ?best0"
    by (intro outer_loop_inv) simp_all
  then have le: "bs + bi \<le> ?n" by (auto simp: b match_in_def)
  show ?thesis
    unfolding find_longest_match_def Let_def b
    using d le by (simp add: extend_back_self extend_fwd_self extend_junk)
qed

lemma blocks_loop_self:
  "blocks_loop a a [(0, length a, 0, length a)] []
     = (if length a = 0 then [] else [(0, 0, length a)])"
  by (subst blocks_loop.simps)
    (simp add: find_longest_match_self Let_def blocks_loop.simps(1))

lemma ratio_self: "ratio a a = 1"
proof -
  have "matched (get_matching_blocks a a) = length a"
    by (simp add: get_matching_blocks_def matched_collapse matched_sort blocks_loop_self)
  then show ?thesis
    by (simp add: ratio_def calculate_ratio_def matched_def [symmetric])
qed

text \<open>
  The ratio depends on the order of its arguments: \<open>fuzzy_match\<close> with the name
  "TIDE" scores the candidate "DIET" at 1/4, and with the name "DIET" it scores the
  candidate "TIDE" at 1/2.
\<close>

theorem ratio_not_symmetric: "ratio ''TIDE'' ''DIET'' \<noteq> ratio ''DIET'' ''TIDE''"
proof -
  have "ratio ''TIDE'' ''DIET'' = 1 / 4" by code_simp
  moreover have "ratio ''DIET'' ''TIDE'' = 1 / 2" by code_simp
  ultimately show ?thesis by simp
qed

text \<open>
  C7, as the code has it. The similarity ratio that \<open>fuzzy_match\<close> computes lies
  between 0 and 1 for all strings, and is 1 when the two strings are the same.
  (It is not symmetric, as the theorem above shows.)
\<close>

theorem ratio_range_and_identity:
  "0 \<le> ratio a b \<and> ratio a b \<le> 1 \<and> ratio a a = 1"
  using ratio_bounds [of a b] ratio_self [of a] by simp

end
